theory Spec2Isabelle
  imports Complex_Main
begin

section \<open>Phaser.Clock (src/time/Clock.js)\<close>

text \<open>
  The Clock object is embedded as a record holding its fields, together with the part of
  the JavaScript heap it talks to. JavaScript numbers are idealised as \<open>real\<close>: the
  arithmetic of \<open>now\<close> is exact, and NaN, the infinities and rounding are outside the model.

  \<open>Phaser.Timer\<close> is not part of the source under study. A Timer object is a reference
  (a natural number, allocated freshly by \<open>new\<close>), and what its constructor and its methods
  do is a parameter of every operation, the record \<open>timer_api\<close>. The constructor,
  \<open>start\<close>, \<open>destroy\<close> and \<open>removeAll\<close> of a Timer act on the state outside the Clock
  (\<open>env\<close>); \<open>update\<close> runs the timer's event callbacks, which are user code holding a
  reference to the Clock, so it may change the whole state.

  Every call the Clock makes on a Timer is appended to a log that only the Clock's
  operations write, so that "is invoked", "exactly once" and "never" can be stated.
\<close>

type_synonym ref = nat

datatype call =
    CallNew ref bool
  | CallStart ref
  | CallUpdate ref bool
  | CallDestroy ref
  | CallRemoveAll ref

datatype error = TypeError

text \<open>
  The fields of the Clock: \<open>game\<close>, \<open>now\<close>, \<open>timeScale\<close>, \<open>paused\<close>, \<open>events\<close>,
  \<open>_timers\<close>, and the cursor fields \<open>_i\<close> and \<open>_len\<close> that \<open>update\<close> keeps on the
  object (written \<open>priv_timers\<close>, \<open>priv_i\<close>, \<open>priv_len\<close>). The constructor does not
  create \<open>_i\<close> and \<open>_len\<close>; they are read only after \<open>update\<close> has written them, and
  stand at 0 until then. \<open>next_ref\<close> is the allocation frontier of \<open>new\<close> and \<open>env\<close>
  the state of the Timer objects and of everything else outside the Clock.
\<close>

record ('g, 'e) state =
  game :: 'g
  now :: real
  timeScale :: real
  paused :: bool
  events :: ref
  priv_timers :: "ref list"
  priv_i :: int
  priv_len :: int
  next_ref :: ref
  env :: 'e

record ('g, 'e) timer_api =
  t_init :: "ref \<Rightarrow> 'g \<Rightarrow> bool \<Rightarrow> 'e \<Rightarrow> 'e"
  t_start :: "ref \<Rightarrow> 'e \<Rightarrow> 'e"
  t_update :: "ref \<Rightarrow> ('g, 'e) state \<Rightarrow> bool \<times> ('g, 'e) state"
  t_destroy :: "ref \<Rightarrow> 'e \<Rightarrow> 'e"
  t_removeAll :: "ref \<Rightarrow> 'e \<Rightarrow> 'e"

type_synonym ('g, 'e) world = "('g, 'e) state \<times> call list"

subsection \<open>JavaScript arrays\<close>

text \<open>\<open>a[i]\<close>: \<open>undefined\<close> (here \<open>None\<close>) outside the array.\<close>

definition index :: "'a list \<Rightarrow> int \<Rightarrow> 'a option" where
  "index xs i = (if 0 \<le> i \<and> i < int (length xs) then Some (xs ! nat i) else None)"

text \<open>
  \<open>a.splice(start, 1)\<close>: a negative start counts from the end, a start beyond the end
  removes nothing.
\<close>

definition splice :: "'a list \<Rightarrow> int \<Rightarrow> 'a list" where
  "splice xs start =
     (let n = int (length xs);
          k = nat (if start < 0 then max (n + start) 0 else min start n)
      in take k xs @ drop (Suc k) xs)"

subsection \<open>The operations of the Clock\<close>

text \<open>\<open>new Phaser.Timer(game, autoDestroy, clock)\<close>: a fresh reference, initialised.\<close>

definition new_timer ::
  "('g, 'e) timer_api \<Rightarrow> bool \<Rightarrow> ('g, 'e) state \<Rightarrow> ref \<times> ('g, 'e) state" where
  "new_timer api autoDestroy s =
     (let r = next_ref s
      in (r, s\<lparr>next_ref := Suc r, env := t_init api r (game s) autoDestroy (env s)\<rparr>))"

text \<open>The constructor, lines 15 to 51.\<close>

definition construct :: "('g, 'e) timer_api \<Rightarrow> 'g \<Rightarrow> 'e \<Rightarrow> ('g, 'e) world" where
  "construct api g e0 =
     (let s0 = \<lparr>game = g, now = 0, timeScale = 1, paused = False, events = 0,
                priv_timers = [], priv_i = 0, priv_len = 0, next_ref = 0, env = e0\<rparr>;
          (t, s1) = new_timer api False s0;
          s2 = s1\<lparr>events := t, priv_timers := []\<rparr>;
          s3 = s2\<lparr>env := t_start api (events s2) (env s2)\<rparr>
      in (s3, [CallNew t False, CallStart (events s2)]))"

text \<open>\<open>create\<close>, lines 64 to 74. The argument is optional: \<open>None\<close> is \<open>undefined\<close>.\<close>

definition create ::
  "('g, 'e) timer_api \<Rightarrow> bool option \<Rightarrow> ('g, 'e) world \<Rightarrow> ref \<times> ('g, 'e) world" where
  "create api autoDestroy w =
     (let s = fst w;
          ad = (case autoDestroy of None \<Rightarrow> True | Some b \<Rightarrow> b);
          (timer, s1) = new_timer api ad s
      in (timer, (s1\<lparr>priv_timers := priv_timers s1 @ [timer]\<rparr>, snd w @ [CallNew timer ad])))"

text \<open>
  \<open>removeAll\<close>, lines 81 to 92. \<open>destroy\<close> cannot change the array, so the
  \<open>for\<close> loop over its indices is a loop over its elements.
\<close>

fun destroy_each :: "('g, 'e) timer_api \<Rightarrow> ref list \<Rightarrow> 'e \<times> call list \<Rightarrow> 'e \<times> call list" where
  "destroy_each api [] el = el"
| "destroy_each api (t # ts) el =
     destroy_each api ts (t_destroy api t (fst el), snd el @ [CallDestroy t])"

definition removeAll :: "('g, 'e) timer_api \<Rightarrow> ('g, 'e) world \<Rightarrow> ('g, 'e) world" where
  "removeAll api w =
     (let s = fst w;
          (e1, log1) = destroy_each api (priv_timers s) (env s, snd w);
          s1 = s\<lparr>env := e1, priv_timers := []\<rparr>
      in (s1\<lparr>env := t_removeAll api (events s1) (env s1)\<rparr>,
          log1 @ [CallRemoveAll (events s1)]))"

text \<open>
  The \<open>while\<close> loop of \<open>update\<close>, lines 113 to 125. The cursor and the bound are fields
  of the object and are read again after each callback, so a callback that writes them
  can keep the loop running: \<open>None\<close> is a loop that does not end.
  \<open>this._timers[this._i].update()\<close> on a missing entry throws a TypeError.
\<close>

partial_function (option) scan ::
  "('g, 'e) timer_api \<Rightarrow> ('g, 'e) world \<Rightarrow> (error + ('g, 'e) world) option" where
  "scan api w =
     (let s = fst w in
      if priv_i s < priv_len s then
        (case index (priv_timers s) (priv_i s) of
           None \<Rightarrow> Some (Inl TypeError)
         | Some t \<Rightarrow>
             (case t_update api t s of
                (alive, s1) \<Rightarrow>
                  if alive
                  then scan api (s1\<lparr>priv_i := priv_i s1 + 1\<rparr>, snd w @ [CallUpdate t alive])
                  else scan api
                         (s1\<lparr>priv_timers := splice (priv_timers s1) (priv_i s1),
                             priv_len := priv_len s1 - 1\<rparr>,
                          snd w @ [CallUpdate t alive])))
      else Some (Inr w))"

text \<open>\<open>update\<close>, lines 101 to 127.\<close>

definition update ::
  "('g, 'e) timer_api \<Rightarrow> real \<Rightarrow> ('g, 'e) world \<Rightarrow> (error + ('g, 'e) world) option" where
  "update api elapsed w =
     (let s = fst w in
      if \<not> paused s then
        (let s1 = s\<lparr>now := now s + elapsed * timeScale s\<rparr>;
             (r, s2) = t_update api (events s1) s1;
             s3 = s2\<lparr>priv_i := 0\<rparr>;
             s4 = s3\<lparr>priv_len := int (length (priv_timers s3))\<rparr>
         in scan api (s4, snd w @ [CallUpdate (events s1) r]))
      else Some (Inr w))"

text \<open>\<open>elapsedSince\<close>, lines 136 to 138: the value returned and the state it leaves.\<close>

definition elapsedSince :: "real \<Rightarrow> ('g, 'e) world \<Rightarrow> real \<times> ('g, 'e) world" where
  "elapsedSince since w = (now (fst w) - since, w)"

text \<open>\<open>reset\<close>, lines 145 to 150.\<close>

definition reset :: "('g, 'e) timer_api \<Rightarrow> ('g, 'e) world \<Rightarrow> ('g, 'e) world" where
  "reset api w = removeAll api ((fst w)\<lparr>now := 0\<rparr>, snd w)"

subsection \<open>Sequences of operations\<close>

text \<open>
  What a user of the Clock can do to it: call its five methods and write its two
  read-write fields. \<open>run\<close> performs a list of such operations, one after the other,
  and stops at the first one that throws.
\<close>

datatype op =
    OpCreate "bool option"
  | OpRemoveAll
  | OpUpdate real
  | OpElapsedSince real
  | OpReset
  | OpSetPaused bool
  | OpSetTimeScale real

fun step ::
  "('g, 'e) timer_api \<Rightarrow> op \<Rightarrow> ('g, 'e) world \<Rightarrow> (error + ('g, 'e) world) option" where
  "step api (OpCreate autoDestroy) w = Some (Inr (snd (create api autoDestroy w)))"
| "step api OpRemoveAll w = Some (Inr (removeAll api w))"
| "step api (OpUpdate elapsed) w = update api elapsed w"
| "step api (OpElapsedSince since) w = Some (Inr (snd (elapsedSince since w)))"
| "step api OpReset w = Some (Inr (reset api w))"
| "step api (OpSetPaused b) w = Some (Inr ((fst w)\<lparr>paused := b\<rparr>, snd w))"
| "step api (OpSetTimeScale x) w = Some (Inr ((fst w)\<lparr>timeScale := x\<rparr>, snd w))"

fun run ::
  "('g, 'e) timer_api \<Rightarrow> op list \<Rightarrow> ('g, 'e) world \<Rightarrow> (error + ('g, 'e) world) option" where
  "run api [] w = Some (Inr w)"
| "run api (x # xs) w =
     (case step api x w of
        Some (Inr w') \<Rightarrow> run api xs w'
      | r \<Rightarrow> r)"

text \<open>The log entries of a pass over the managed timers: the timer and what it returned.\<close>

abbreviation upd_calls :: "(ref \<times> bool) list \<Rightarrow> call list" where
  "upd_calls tr \<equiv> map (\<lambda>(t, b). CallUpdate t b) tr"

text \<open>
  The state in which the \<open>while\<close> loop of an unpaused \<open>update\<close> starts: \<open>now\<close> advanced,
  the events timer updated, the cursor at 0 and the bound at the length of the array.
\<close>

definition scan_start :: "('g, 'e) timer_api \<Rightarrow> real \<Rightarrow> ('g, 'e) state \<Rightarrow> ('g, 'e) state" where
  "scan_start api elapsed s =
     (let s2 = snd (t_update api (events s) (s\<lparr>now := now s + elapsed * timeScale s\<rparr>))
      in s2\<lparr>priv_i := 0, priv_len := int (length (priv_timers s2))\<rparr>)"

subsection \<open>What is assumed of the timers' callbacks\<close>

text \<open>
  The callbacks run by a timer's \<open>update\<close> are user code. The properties of \<open>update\<close>
  below hold for callbacks that respect the Clock's private cursor and that change the
  array of managed timers only through \<open>create\<close>, that is by appending (\<open>scan_safe\<close>);
  some need callbacks that leave the array alone (\<open>list_kept\<close>), that do not write
  \<open>now\<close> (\<open>now_kept\<close>), \<open>timeScale\<close> and \<open>paused\<close> (\<open>flags_kept\<close>) or \<open>events\<close>
  (\<open>events_fixed\<close>), or whose appended timers are new objects (\<open>alloc_safe\<close>).
  A callback is taken to return: one that throws or runs forever is outside the model.
\<close>

definition scan_safe :: "('g, 'e) timer_api \<Rightarrow> bool" where
  "scan_safe api \<longleftrightarrow>
     (\<forall>t s. priv_i (snd (t_update api t s)) = priv_i s \<and>
            priv_len (snd (t_update api t s)) = priv_len s \<and>
            (\<exists>ext. priv_timers (snd (t_update api t s)) = priv_timers s @ ext))"

definition list_kept :: "('g, 'e) timer_api \<Rightarrow> bool" where
  "list_kept api \<longleftrightarrow> (\<forall>t s. priv_timers (snd (t_update api t s)) = priv_timers s)"



definition events_fixed :: "('g, 'e) timer_api \<Rightarrow> bool" where
  "events_fixed api \<longleftrightarrow> (\<forall>t s. events (snd (t_update api t s)) = events s)"

definition alloc_safe :: "('g, 'e) timer_api \<Rightarrow> bool" where
  "alloc_safe api \<longleftrightarrow>
     (\<forall>t s. next_ref s \<le> next_ref (snd (t_update api t s)) \<and>
            (\<forall>x \<in> set (priv_timers (snd (t_update api t s))).
               x \<in> set (priv_timers s) \<or>
               (next_ref s \<le> x \<and> x < next_ref (snd (t_update api t s)))))"

subsection \<open>Collaborators and states to run the Clock with\<close>

text \<open>
  \<open>tick_api\<close>: a timer built with auto-destroy reports completion at its second update,
  any other timer stays alive; \<open>env\<close> holds the updates each timer has left (0: no limit),
  and \<open>idle\<close> is the \<open>env\<close> before any timer is made.
\<close>

definition idle :: "ref \<Rightarrow> nat" where
  "idle = (\<lambda>r. 0)"

definition tick_api :: "(unit, ref \<Rightarrow> nat) timer_api" where
  "tick_api =
     \<lparr>t_init = (\<lambda>r g autoDestroy e. e(r := if autoDestroy then 2 else 0)),
      t_start = (\<lambda>r e. e),
      t_update = (\<lambda>r s.
         if env s r = 0 then (True, s)
         else if env s r = 1 then (False, s)
         else (True, s\<lparr>env := (env s)(r := env s r - 1)\<rparr>)),
      t_destroy = (\<lambda>r e. e(r := 1)),
      t_removeAll = (\<lambda>r e. e)\<rparr>"

text \<open>\<open>dead_api\<close>: every timer, the events timer too, reports completion at once.\<close>

definition dead_api :: "(unit, unit) timer_api" where
  "dead_api =
     \<lparr>t_init = (\<lambda>r g autoDestroy e. e),
      t_start = (\<lambda>r e. e),
      t_update = (\<lambda>r s. (False, s)),
      t_destroy = (\<lambda>r e. e),
      t_removeAll = (\<lambda>r e. e)\<rparr>"

text \<open>\<open>spawn_api\<close>: as \<open>tick_api\<close>, but the callback of timer 1 calls \<open>create(false)\<close>.\<close>

definition spawn_api :: "(unit, ref \<Rightarrow> nat) timer_api" where
  "spawn_api =
     tick_api\<lparr>t_update := (\<lambda>r s.
        if r = 1 then (True, fst (snd (create tick_api (Some False) (s, []))))
        else t_update tick_api r s)\<rparr>"

text \<open>A Clock with two managed timers: \<open>create()\<close>, then \<open>create(false)\<close>.\<close>

definition two_timers :: "(unit, ref \<Rightarrow> nat) world" where
  "two_timers =
     snd (create tick_api (Some False)
       (snd (create tick_api None (construct tick_api () idle))))"

text \<open>The same Clock when its first timer has one update left.\<close>

definition expiring :: "(unit, ref \<Rightarrow> nat) world" where
  "expiring = ((fst two_timers)\<lparr>env := (env (fst two_timers))(1 := 1)\<rparr>, snd two_timers)"


section \<open>Properties\<close>

subsection \<open>Arrays and the simple operations\<close>

lemma index_mid: "index (pre @ t # rest) (int (length pre)) = Some t"
  by (simp add: index_def)

lemma splice_mid: "splice (pre @ t # rest) (int (length pre)) = pre @ rest"
  by (simp add: splice_def Let_def min_def)

lemma two_timers_eq:
  "two_timers =
     (\<lparr>game = (), now = 0, timeScale = 1, paused = False, events = 0,
       priv_timers = [1, 2], priv_i = 0, priv_len = 0, next_ref = 3,
       env = idle(0 := 0, 1 := 2, 2 := 0)\<rparr>,
      [CallNew 0 False, CallStart 0, CallNew 1 True, CallNew 2 False])"
  by (simp add: two_timers_def create_def construct_def new_timer_def tick_api_def Let_def
      numeral_2_eq_2)

lemma destroy_each_eq:
  "destroy_each api ts el =
     (foldl (\<lambda>e t. t_destroy api t e) (fst el) ts, snd el @ map CallDestroy ts)"
  by (induction ts arbitrary: el) simp_all

lemma removeAll_eq:
  "removeAll api w =
     ((fst w)\<lparr>priv_timers := [],
              env := t_removeAll api (events (fst w))
                       (foldl (\<lambda>e t. t_destroy api t e) (env (fst w)) (priv_timers (fst w)))\<rparr>,
      snd w @ map CallDestroy (priv_timers (fst w)) @ [CallRemoveAll (events (fst w))])"
  by (simp add: removeAll_def destroy_each_eq Let_def)

lemma set_splice: "set (splice xs k) \<subseteq> set xs"
proof -
  have "set (take n xs @ drop (Suc n) xs) \<subseteq> set xs" for n
    using set_take_subset[of n xs] set_drop_subset[of "Suc n" xs] by auto
  then show ?thesis by (simp add: splice_def Let_def)
qed

lemma create_eq:
  "create api autoDestroy w =
     (next_ref (fst w),
      (fst w)\<lparr>priv_timers := priv_timers (fst w) @ [next_ref (fst w)],
              next_ref := Suc (next_ref (fst w)),
              env := t_init api (next_ref (fst w)) (game (fst w))
                       (case autoDestroy of None \<Rightarrow> True | Some b \<Rightarrow> b) (env (fst w))\<rparr>,
      snd w @ [CallNew (next_ref (fst w)) (case autoDestroy of None \<Rightarrow> True | Some b \<Rightarrow> b)])"
  by (simp add: create_def new_timer_def Let_def)

subsection \<open>The three collaborators\<close>

lemma tick_scan_safe: "scan_safe tick_api"
  by (simp add: scan_safe_def tick_api_def)

lemma tick_list_kept: "list_kept tick_api"
  by (simp add: list_kept_def tick_api_def)



lemma tick_events_fixed: "events_fixed tick_api"
  by (simp add: events_fixed_def tick_api_def)

lemma tick_alloc_safe: "alloc_safe tick_api"
  by (simp add: alloc_safe_def tick_api_def)

lemma dead_scan_safe: "scan_safe dead_api"
  by (simp add: scan_safe_def dead_api_def)

lemma dead_events_fixed: "events_fixed dead_api"
  by (simp add: events_fixed_def dead_api_def)


lemma spawn_alloc_safe: "alloc_safe spawn_api"
  by (auto simp add: alloc_safe_def spawn_api_def tick_api_def create_def new_timer_def Let_def)


lemma tick_update:
  "t_update tick_api r s =
     (if env s r = 0 then (True, s)
      else if env s r = 1 then (False, s)
      else (True, s\<lparr>env := (env s)(r := env s r - 1)\<rparr>))"
  by (simp add: tick_api_def)

lemma expiring_eq:
  "expiring =
     (\<lparr>game = (), now = 0, timeScale = 1, paused = False, events = 0,
       priv_timers = [1, 2], priv_i = 0, priv_len = 0, next_ref = 3,
       env = idle(0 := 0, 1 := 2, 2 := 0, 1 := 1)\<rparr>,
      [CallNew 0 False, CallStart 0, CallNew 1 True, CallNew 2 False])"
  by (simp add: expiring_def two_timers_eq)

lemma expiring_tick:
  "map_option (map_sum id (\<lambda>w. (priv_timers (fst w), snd w))) (update tick_api 16 expiring) =
     Some (Inr ([2],
       [CallNew 0 False, CallStart 0, CallNew 1 True, CallNew 2 False,
        CallUpdate 0 True, CallUpdate 1 False, CallUpdate 2 True]))"
  by (simp add: expiring_eq update_def Let_def tick_update scan.simps index_def splice_def)



lemma construct_dead:
  "construct dead_api () () =
     (\<lparr>game = (), now = 0, timeScale = 1, paused = False, events = 0,
       priv_timers = [], priv_i = 0, priv_len = 0, next_ref = 1, env = ()\<rparr>,
      [CallNew 0 False, CallStart 0])"
  by (simp add: construct_def new_timer_def dead_api_def Let_def)

lemma dead_update: "t_update dead_api r s = (False, s)"
  by (simp add: dead_api_def)

lemma two_timers_reached:
  "run tick_api [OpCreate None, OpCreate (Some False)] (construct tick_api () idle) =
     Some (Inr two_timers)"
  by (simp add: two_timers_def)

text \<open>Runs of the three collaborators.\<close>

lemma dead_run:
  "run dead_api [OpCreate None, OpUpdate 16, OpCreate (Some False), OpRemoveAll]
     (construct dead_api () ()) =
   Some (Inr (\<lparr>game = (), now = 16, timeScale = 1, paused = False, events = 0,
               priv_timers = [], priv_i = 0, priv_len = 0, next_ref = 3, env = ()\<rparr>,
              [CallNew 0 False, CallStart 0, CallNew 1 True, CallUpdate 0 False,
               CallUpdate 1 False, CallNew 2 False, CallDestroy 2, CallRemoveAll 0]))"
  by (simp add: construct_dead create_eq removeAll_eq update_def Let_def dead_update scan.simps
      index_def splice_def)


lemma dead_two_ticks:
  "map_option (map_sum id (\<lambda>w. (events (fst w), priv_timers (fst w), snd w)))
     (run dead_api [OpCreate None, OpUpdate 16, OpUpdate 16] (construct dead_api () ())) =
     Some (Inr (0, [],
       [CallNew 0 False, CallStart 0, CallNew 1 True,
        CallUpdate 0 False, CallUpdate 1 False, CallUpdate 0 False]))"
  by (simp add: construct_dead create_eq update_def Let_def dead_update scan.simps
      index_def splice_def)

lemma cleared_then_used:
  "map_option (map_sum id (\<lambda>w. (priv_timers (fst w), snd w)))
     (run tick_api [OpCreate None, OpUpdate 16, OpUpdate 16]
        (removeAll tick_api (snd (create tick_api None two_timers)))) =
     Some (Inr ([],
       [CallNew 0 False, CallStart 0, CallNew 1 True, CallNew 2 False, CallNew 3 True,
        CallDestroy 1, CallDestroy 2, CallDestroy 3, CallRemoveAll 0, CallNew 4 True,
        CallUpdate 0 True, CallUpdate 4 True, CallUpdate 0 True, CallUpdate 4 False]))"
  by (simp add: two_timers_eq removeAll_eq create_eq update_def Let_def tick_update scan.simps
      index_def splice_def tick_api_def)

subsection \<open>The pass over the managed timers\<close>

text \<open>
  The loop from any point of a pass: the array is \<open>pre @ rest @ post\<close>, the cursor
  stands after \<open>pre\<close> and the bound after \<open>rest\<close>. The loop ends, having invoked
  exactly the timers of \<open>rest\<close>, in order; it keeps those of them that returned true,
  and leaves \<open>pre\<close>, \<open>post\<close> and whatever the callbacks appended in place.
\<close>

lemma callback_cases:
  assumes "scan_safe api"
  obtains alive s1 ext where "t_update api t s = (alive, s1)"
    and "priv_i s1 = priv_i s" and "priv_len s1 = priv_len s"
    and "priv_timers s1 = priv_timers s @ ext"
    and "list_kept api \<longrightarrow> ext = []"
proof -
  obtain alive s1 where cb: "t_update api t s = (alive, s1)"
    by (cases "t_update api t s")
  from assms have "priv_i (snd (t_update api t s)) = priv_i s"
    and "priv_len (snd (t_update api t s)) = priv_len s"
    and "\<exists>ext. priv_timers (snd (t_update api t s)) = priv_timers s @ ext"
    unfolding scan_safe_def by blast+
  then obtain ext where a: "priv_i s1 = priv_i s" and b: "priv_len s1 = priv_len s"
    and c: "priv_timers s1 = priv_timers s @ ext"
    using cb by auto
  have "list_kept api \<longrightarrow> ext = []"
  proof
    assume "list_kept api"
    then have "priv_timers (snd (t_update api t s)) = priv_timers s"
      unfolding list_kept_def by blast
    with c cb show "ext = []" by simp
  qed
  with cb a b c show thesis by (rule that)
qed

lemma scan_run:
  assumes safe: "scan_safe api"
    and stab_cb: "\<And>t s. P s \<Longrightarrow> P (snd (t_update api t s))"
    and stab_i: "\<And>s i. P s \<Longrightarrow> P (s\<lparr>priv_i := i\<rparr>)"
    and stab_rm: "\<And>s k l. P s \<Longrightarrow> P (s\<lparr>priv_timers := splice (priv_timers s) k, priv_len := l\<rparr>)"
  shows "priv_timers s = pre @ rest @ post \<Longrightarrow> priv_i s = int (length pre) \<Longrightarrow>
         priv_len s = int (length pre + length rest) \<Longrightarrow> P s \<Longrightarrow>
         \<exists>s' tr ext. scan api (s, cs) = Some (Inr (s', cs @ upd_calls tr)) \<and>
            map fst tr = rest \<and>
            priv_timers s' = pre @ map fst (filter snd tr) @ post @ ext \<and>
            (list_kept api \<longrightarrow> ext = []) \<and>
            priv_i s' = priv_len s' \<and>
            priv_len s' = int (length pre + length (filter snd tr)) \<and> P s'"
proof (induction rest arbitrary: s pre post cs)
  case Nil
  then show ?case
    by (subst scan.simps) (auto simp: Let_def intro!: exI[of _ "[]"])
next
  case (Cons t rest)
  from safe obtain alive s1 ext where cb: "t_update api t s = (alive, s1)"
    and i1: "priv_i s1 = priv_i s" and l1: "priv_len s1 = priv_len s"
    and ts1: "priv_timers s1 = priv_timers s @ ext"
    and k1: "list_kept api \<longrightarrow> ext = []"
    by (rule callback_cases)
  have P1: "P s1" using stab_cb[OF Cons.prems(4), of t] cb by simp
  have idx: "index (priv_timers s) (priv_i s) = Some t"
    using Cons.prems(1,2) index_mid[of pre t "rest @ post"] by simp
  have lt: "priv_i s < priv_len s" using Cons.prems(2,3) by simp
  show ?case
  proof (cases alive)
    case True
    let ?s2 = "s1\<lparr>priv_i := priv_i s1 + 1\<rparr>"
    have step: "scan api (s, cs) = scan api (?s2, cs @ [CallUpdate t True])"
      using lt idx cb True by (subst scan.simps) (simp add: Let_def)
    have a: "priv_timers ?s2 = (pre @ [t]) @ rest @ (post @ ext)"
      using ts1 Cons.prems(1) by simp
    have b: "priv_i ?s2 = int (length (pre @ [t]))" using i1 Cons.prems(2) by simp
    have c: "priv_len ?s2 = int (length (pre @ [t]) + length rest)"
      using l1 Cons.prems(3) by simp
    have d: "P ?s2" using stab_i[OF P1] .
    from Cons.IH[OF a b c d, of "cs @ [CallUpdate t True]"]
    obtain s' tr ext' where
      r: "scan api (?s2, cs @ [CallUpdate t True]) =
            Some (Inr (s', (cs @ [CallUpdate t True]) @ upd_calls tr))"
      and m: "map fst tr = rest"
      and f: "priv_timers s' = (pre @ [t]) @ map fst (filter snd tr) @ (post @ ext) @ ext'"
      and k: "list_kept api \<longrightarrow> ext' = []"
      and e: "priv_i s' = priv_len s'"
      and l: "priv_len s' = int (length (pre @ [t]) + length (filter snd tr))"
      and p: "P s'"
      by blast
    show ?thesis
      apply (rule exI[of _ s'], rule exI[of _ "(t, True) # tr"], rule exI[of _ "ext @ ext'"])
      using step r m f e l p k k1 by simp
  next
    case False
    let ?s2 = "s1\<lparr>priv_timers := splice (priv_timers s1) (priv_i s1),
                   priv_len := priv_len s1 - 1\<rparr>"
    have step: "scan api (s, cs) = scan api (?s2, cs @ [CallUpdate t False])"
      using lt idx cb False by (subst scan.simps) (simp add: Let_def)
    have sp: "splice (priv_timers s1) (priv_i s1) = pre @ rest @ post @ ext"
      using ts1 i1 Cons.prems(1,2) splice_mid[of pre t "rest @ post @ ext"] by simp
    have a: "priv_timers ?s2 = pre @ rest @ (post @ ext)" using sp by simp
    have b: "priv_i ?s2 = int (length pre)" using i1 Cons.prems(2) by simp
    have c: "priv_len ?s2 = int (length pre + length rest)"
      using l1 Cons.prems(3) by simp
    have d: "P ?s2" using stab_rm[OF P1] .
    from Cons.IH[OF a b c d, of "cs @ [CallUpdate t False]"]
    obtain s' tr ext' where
      r: "scan api (?s2, cs @ [CallUpdate t False]) =
            Some (Inr (s', (cs @ [CallUpdate t False]) @ upd_calls tr))"
      and m: "map fst tr = rest"
      and f: "priv_timers s' = pre @ map fst (filter snd tr) @ (post @ ext) @ ext'"
      and k: "list_kept api \<longrightarrow> ext' = []"
      and e: "priv_i s' = priv_len s'"
      and l: "priv_len s' = int (length pre + length (filter snd tr))"
      and p: "P s'"
      by blast
    show ?thesis
      apply (rule exI[of _ s'], rule exI[of _ "(t, False) # tr"], rule exI[of _ "ext @ ext'"])
      using step r m f e l p k k1 by simp
  qed
qed

lemma update_unpaused:
  "\<not> paused (fst w) \<Longrightarrow>
   update api elapsed w =
     scan api (scan_start api elapsed (fst w),
       snd w @ [CallUpdate (events (fst w))
         (fst (t_update api (events (fst w))
            ((fst w)\<lparr>now := now (fst w) + elapsed * timeScale (fst w)\<rparr>)))])"
  by (simp add: update_def scan_start_def Let_def split: prod.split)

text \<open>Whatever the callbacks do, a pass that ends has logged calls of \<open>update()\<close> only.\<close>

lemma scan_log:
  "scan api w = Some y \<Longrightarrow>
   \<forall>w'. y = Inr w' \<longrightarrow> (\<exists>tr. snd w' = snd w @ upd_calls tr)"
proof (induction api w y rule: scan.raw_induct[rotated 1, consumes 1, case_names body])
  case (body f api w y)
  show ?case
  proof (cases "priv_i (fst w) < priv_len (fst w)")
    case False
    with body(2) have "y = Inr w" by (simp add: Let_def)
    then show ?thesis by (auto intro: exI[of _ "[]"])
  next
    case True
    show ?thesis
    proof (cases "index (priv_timers (fst w)) (priv_i (fst w))")
      case None
      with True body(2) have "y = Inl TypeError" by (simp add: Let_def)
      then show ?thesis by simp
    next
      case (Some t)
      obtain alive s1 where cb: "t_update api t (fst w) = (alive, s1)"
        by (cases "t_update api t (fst w)")
      show ?thesis
      proof (cases alive)
        case True
        with \<open>priv_i (fst w) < priv_len (fst w)\<close> Some cb body(2)
        have "f api (s1\<lparr>priv_i := priv_i s1 + 1\<rparr>, snd w @ [CallUpdate t True]) = Some y"
          by (simp add: Let_def)
        note ih = body(1)[OF this]
        show ?thesis
        proof (intro allI impI)
          fix w' assume "y = Inr w'"
          with ih
          obtain tr where "snd w' = (snd w @ [CallUpdate t True]) @ upd_calls tr" by auto
          then have "snd w' = snd w @ upd_calls ((t, True) # tr)" by simp
          then show "\<exists>tr. snd w' = snd w @ upd_calls tr" ..
        qed
      next
        case False
        with \<open>priv_i (fst w) < priv_len (fst w)\<close> Some cb body(2)
        have "f api (s1\<lparr>priv_timers := splice (priv_timers s1) (priv_i s1),
                         priv_len := priv_len s1 - 1\<rparr>, snd w @ [CallUpdate t False]) = Some y"
          by (simp add: Let_def)
        note ih = body(1)[OF this]
        show ?thesis
        proof (intro allI impI)
          fix w' assume "y = Inr w'"
          with ih
          obtain tr where "snd w' = (snd w @ [CallUpdate t False]) @ upd_calls tr" by auto
          then have "snd w' = snd w @ upd_calls ((t, False) # tr)" by simp
          then show "\<exists>tr. snd w' = snd w @ upd_calls tr" ..
        qed
      qed
    qed
  qed
qed

lemma update_run:
  assumes safe: "scan_safe api"
    and stab_cb: "\<And>t s. P s \<Longrightarrow> P (snd (t_update api t s))"
    and stab_i: "\<And>s i. P s \<Longrightarrow> P (s\<lparr>priv_i := i\<rparr>)"
    and stab_rm: "\<And>s k l. P s \<Longrightarrow> P (s\<lparr>priv_timers := splice (priv_timers s) k, priv_len := l\<rparr>)"
    and run: "\<not> paused (fst w)"
    and start: "P (scan_start api elapsed (fst w))"
  shows "\<exists>s' r tr ext.
           update api elapsed w =
             Some (Inr (s', snd w @ CallUpdate (events (fst w)) r # upd_calls tr)) \<and>
           r = fst (t_update api (events (fst w))
                 ((fst w)\<lparr>now := now (fst w) + elapsed * timeScale (fst w)\<rparr>)) \<and>
           map fst tr = priv_timers (scan_start api elapsed (fst w)) \<and>
           priv_timers s' = map fst (filter snd tr) @ ext \<and>
           (list_kept api \<longrightarrow> ext = []) \<and> P s'"
proof -
  let ?s = "scan_start api elapsed (fst w)"
  let ?cs = "snd w @ [CallUpdate (events (fst w))
         (fst (t_update api (events (fst w))
            ((fst w)\<lparr>now := now (fst w) + elapsed * timeScale (fst w)\<rparr>)))]"
  have a: "priv_timers ?s = [] @ priv_timers ?s @ []" by simp
  have b: "priv_i ?s = int (length ([] :: ref list))" by (simp add: scan_start_def Let_def)
  have c: "priv_len ?s = int (length ([] :: ref list) + length (priv_timers ?s))"
    by (simp add: scan_start_def Let_def)
  have "\<exists>s' tr ext. scan api (?s, ?cs) = Some (Inr (s', ?cs @ upd_calls tr)) \<and>
            map fst tr = priv_timers ?s \<and>
            priv_timers s' = [] @ map fst (filter snd tr) @ [] @ ext \<and>
            (list_kept api \<longrightarrow> ext = []) \<and>
            priv_i s' = priv_len s' \<and>
            priv_len s' = int (length ([] :: ref list) + length (filter snd tr)) \<and> P s'"
    using safe stab_cb stab_i stab_rm a b c start by (rule scan_run[where P = P])
  then show ?thesis
    unfolding update_unpaused[OF run] by fastforce
qed





subsection \<open>Invariants of sequences of operations\<close>

text \<open>
  A property \<open>P\<close> of the state that the callbacks and the Clock's own writes keep holds
  after any sequence of operations, none of which throws or runs forever; and when \<open>P\<close>
  gives \<open>R\<close> of the events timer and of the managed timers, the timers whose
  \<open>update()\<close> the sequence invokes all have \<open>R\<close>.
\<close>

lemma step_inv:
  assumes safe: "scan_safe api"
    and cb: "\<And>t s. P s \<Longrightarrow> P (snd (t_update api t s))"
    and plain: "\<And>s a b c i l. P s \<Longrightarrow>
       P (s\<lparr>now := a, timeScale := b, paused := c, priv_i := i, priv_len := l\<rparr>)"
    and envs: "\<And>s e. P s \<Longrightarrow> P (s\<lparr>env := e\<rparr>)"
    and rm: "\<And>s k. P s \<Longrightarrow> P (s\<lparr>priv_timers := splice (priv_timers s) k\<rparr>)"
    and clear: "\<And>s. P s \<Longrightarrow> P (s\<lparr>priv_timers := []\<rparr>)"
    and new: "\<And>s. P s \<Longrightarrow>
       P (s\<lparr>priv_timers := priv_timers s @ [next_ref s], next_ref := Suc (next_ref s)\<rparr>)"
    and ok: "\<And>s. P s \<Longrightarrow> R (events s) \<and> (\<forall>x\<in>set (priv_timers s). R x)"
    and start: "P (fst w)"
  shows "\<exists>w' new. step api x w = Some (Inr w') \<and> P (fst w') \<and> snd w' = snd w @ new \<and>
           (\<forall>t b. CallUpdate t b \<in> set new \<longrightarrow> R t)"
proof -
  have p_now: "\<And>s a. P s \<Longrightarrow> P (s\<lparr>now := a\<rparr>)"
  proof -
    fix s :: "('a, 'b) state" and a assume "P s"
    from plain[OF this, where a = a and b = "timeScale s" and c = "paused s" and i = "priv_i s" and l = "priv_len s"]
    show "P (s\<lparr>now := a\<rparr>)" by simp
  qed
  have p_ts: "\<And>s a. P s \<Longrightarrow> P (s\<lparr>timeScale := a\<rparr>)"
  proof -
    fix s :: "('a, 'b) state" and a assume "P s"
    from plain[OF this, where a = "now s" and b = a and c = "paused s" and i = "priv_i s" and l = "priv_len s"]
    show "P (s\<lparr>timeScale := a\<rparr>)" by simp
  qed
  have p_pa: "\<And>s a. P s \<Longrightarrow> P (s\<lparr>paused := a\<rparr>)"
  proof -
    fix s :: "('a, 'b) state" and a assume "P s"
    from plain[OF this, where a = "now s" and b = "timeScale s" and c = a and i = "priv_i s" and l = "priv_len s"]
    show "P (s\<lparr>paused := a\<rparr>)" by simp
  qed
  have p_i: "\<And>s a. P s \<Longrightarrow> P (s\<lparr>priv_i := a\<rparr>)"
  proof -
    fix s :: "('a, 'b) state" and a assume "P s"
    from plain[OF this, where a = "now s" and b = "timeScale s" and c = "paused s" and i = a and l = "priv_len s"]
    show "P (s\<lparr>priv_i := a\<rparr>)" by simp
  qed
  have p_il: "\<And>s a b. P s \<Longrightarrow> P (s\<lparr>priv_i := a, priv_len := b\<rparr>)"
  proof -
    fix s :: "('a, 'b) state" and a b assume "P s"
    from plain[OF this, where a = "now s" and b = "timeScale s" and c = "paused s" and i = a and l = b]
    show "P (s\<lparr>priv_i := a, priv_len := b\<rparr>)" by simp
  qed
  have p_rm: "\<And>s k l. P s \<Longrightarrow> P (s\<lparr>priv_timers := splice (priv_timers s) k, priv_len := l\<rparr>)"
  proof -
    fix s :: "('a, 'b) state" and k l assume "P s"
    from p_il[OF rm[OF this, of k], where a = "priv_i s" and b = l]
    show "P (s\<lparr>priv_timers := splice (priv_timers s) k, priv_len := l\<rparr>)" by simp
  qed
  show ?thesis
  proof (cases x)
    case (OpCreate a)
    have "P (fst (snd (create api a w)))"
      using envs[OF new[OF start]] by (simp add: create_eq)
    then show ?thesis using OpCreate by (simp add: create_eq)
  next
    case OpRemoveAll
    have "P (fst (removeAll api w))"
      using envs[OF clear[OF start]] by (simp add: removeAll_eq)
    then show ?thesis using OpRemoveAll by (auto simp add: removeAll_eq)
  next
    case (OpUpdate e)
    show ?thesis
    proof (cases "paused (fst w)")
      case True
      then show ?thesis using OpUpdate start by (simp add: update_def)
    next
      case False
      have st: "P (scan_start api e (fst w))"
        unfolding scan_start_def Let_def
        by (rule p_il, rule cb, rule p_now, rule start)
      from update_run[where P = P, OF safe cb p_i p_rm False st]
      obtain s' r tr where
        u: "update api e w = Some (Inr (s', snd w @ CallUpdate (events (fst w)) r # upd_calls tr))"
        and m: "map fst tr = priv_timers (scan_start api e (fst w))"
        and p: "P s'"
        by blast
      have "\<forall>x\<in>set (map fst tr). R x" using ok[OF st] m by simp
      then have "\<forall>t b. CallUpdate t b \<in> set (upd_calls tr) \<longrightarrow> R t" by auto
      moreover have "R (events (fst w))" using ok[OF start] by simp
      ultimately have "\<forall>t b. CallUpdate t b \<in> set (CallUpdate (events (fst w)) r # upd_calls tr) \<longrightarrow> R t"
        by auto
      with u p OpUpdate show ?thesis
        by (intro exI[of _ "(s', snd w @ CallUpdate (events (fst w)) r # upd_calls tr)"]
            exI[of _ "CallUpdate (events (fst w)) r # upd_calls tr"]) simp
    qed
  next
    case (OpElapsedSince since)
    then show ?thesis using start by (simp add: elapsedSince_def)
  next
    case OpReset
    have "P (fst (reset api w))"
      using envs[OF clear[OF p_now[OF start, where a = 0]]] by (simp add: reset_def removeAll_eq)
    then show ?thesis using OpReset by (auto simp add: reset_def removeAll_eq)
  next
    case (OpSetPaused b)
    then show ?thesis using p_pa[OF start] by simp
  next
    case (OpSetTimeScale b)
    then show ?thesis using p_ts[OF start] by simp
  qed
qed

lemma run_inv:
  assumes safe: "scan_safe api"
    and cb: "\<And>t s. P s \<Longrightarrow> P (snd (t_update api t s))"
    and plain: "\<And>s a b c i l. P s \<Longrightarrow>
       P (s\<lparr>now := a, timeScale := b, paused := c, priv_i := i, priv_len := l\<rparr>)"
    and envs: "\<And>s e. P s \<Longrightarrow> P (s\<lparr>env := e\<rparr>)"
    and rm: "\<And>s k. P s \<Longrightarrow> P (s\<lparr>priv_timers := splice (priv_timers s) k\<rparr>)"
    and clear: "\<And>s. P s \<Longrightarrow> P (s\<lparr>priv_timers := []\<rparr>)"
    and new: "\<And>s. P s \<Longrightarrow>
       P (s\<lparr>priv_timers := priv_timers s @ [next_ref s], next_ref := Suc (next_ref s)\<rparr>)"
    and ok: "\<And>s. P s \<Longrightarrow> R (events s) \<and> (\<forall>x\<in>set (priv_timers s). R x)"
  shows "P (fst w) \<Longrightarrow>
         \<exists>w' new. run api xs w = Some (Inr w') \<and> P (fst w') \<and> snd w' = snd w @ new \<and>
           (\<forall>t b. CallUpdate t b \<in> set new \<longrightarrow> R t)"
proof (induction xs arbitrary: w)
  case Nil
  then show ?case by simp
next
  case (Cons x xs)
  have "\<exists>w' new. step api x w = Some (Inr w') \<and> P (fst w') \<and> snd w' = snd w @ new \<and>
           (\<forall>t b. CallUpdate t b \<in> set new \<longrightarrow> R t)"
    using safe cb plain envs rm clear new ok Cons.prems by (rule step_inv[where P = P])
  then obtain w1 new1 where s: "step api x w = Some (Inr w1)" and p: "P (fst w1)"
    and l: "snd w1 = snd w @ new1" and r: "\<forall>t b. CallUpdate t b \<in> set new1 \<longrightarrow> R t"
    by blast
  from Cons.IH[OF p] obtain w' new2 where s2: "run api xs w1 = Some (Inr w')"
    and p2: "P (fst w')" and l2: "snd w' = snd w1 @ new2"
    and r2: "\<forall>t b. CallUpdate t b \<in> set new2 \<longrightarrow> R t"
    by blast
  have "\<forall>t b. CallUpdate t b \<in> set (new1 @ new2) \<longrightarrow> R t" using r r2 by auto
  moreover have "snd w' = snd w @ (new1 @ new2)" using l l2 by simp
  ultimately show ?case using s s2 p2 by (intro exI[of _ w'] exI[of _ "new1 @ new2"]) simp
qed

text \<open>
  The events timer is older than the allocation frontier in every state the operations
  reach; and a timer that is allocated, is not the events timer and is not in the array
  is never updated again.
\<close>

lemma events_allocated:
  assumes safe: "scan_safe api" and fixed: "events_fixed api" and alloc: "alloc_safe api"
    and reach: "run api xs0 (construct api g e0) = Some (Inr w)"
  shows "events (fst w) < next_ref (fst w) \<and> events (fst w) \<notin> set (priv_timers (fst w))"
proof -
  define P :: "('a, 'b) state \<Rightarrow> bool" where
    "P = (\<lambda>s. events s < next_ref s \<and> events s \<notin> set (priv_timers s))"
  have cb: "\<And>t s. P s \<Longrightarrow> P (snd (t_update api t s))"
  proof -
    fix t and s :: "('a, 'b) state" assume p: "P s"
    let ?s' = "snd (t_update api t s)"
    from alloc have n: "next_ref s \<le> next_ref ?s'"
      and l: "\<forall>x\<in>set (priv_timers ?s'). x \<in> set (priv_timers s) \<or>
                (next_ref s \<le> x \<and> x < next_ref ?s')"
      unfolding alloc_safe_def by blast+
    from fixed have e: "events ?s' = events s"
      unfolding events_fixed_def by blast
    from p l have "events s \<notin> set (priv_timers ?s')" unfolding P_def by auto
    with p n e show "P ?s'" unfolding P_def by simp
  qed
  have rm: "\<And>s k. P s \<Longrightarrow> P (s\<lparr>priv_timers := splice (priv_timers s) k\<rparr>)"
    using set_splice unfolding P_def by fastforce
  have init: "P (fst (construct api g e0))"
    by (simp add: P_def construct_def new_timer_def Let_def)
  have "\<exists>w' new. run api xs0 (construct api g e0) = Some (Inr w') \<and> P (fst w') \<and>
          snd w' = snd (construct api g e0) @ new \<and>
          (\<forall>t b. CallUpdate t b \<in> set new \<longrightarrow> True)"
    by (rule run_inv[where P = P and R = "\<lambda>t. True", OF safe cb _ _ rm _ _ _ init])
      (auto simp add: P_def)
  with reach show ?thesis unfolding P_def by auto
qed

lemma gone_for_good:
  assumes safe: "scan_safe api" and fixed: "events_fixed api" and alloc: "alloc_safe api"
    and a: "t < next_ref (fst w)" and b: "t \<noteq> events (fst w)"
    and c: "t \<notin> set (priv_timers (fst w))"
  shows "\<exists>w' new. run api xs w = Some (Inr w') \<and> snd w' = snd w @ new \<and>
           (\<forall>b. CallUpdate t b \<notin> set new)"
proof -
  define P :: "('a, 'b) state \<Rightarrow> bool" where
    "P = (\<lambda>s. t < next_ref s \<and> t \<noteq> events s \<and> t \<notin> set (priv_timers s))"
  have cb: "\<And>u s. P s \<Longrightarrow> P (snd (t_update api u s))"
  proof -
    fix u and s :: "('a, 'b) state" assume p: "P s"
    let ?s' = "snd (t_update api u s)"
    from alloc have n: "next_ref s \<le> next_ref ?s'"
      and l: "\<forall>x\<in>set (priv_timers ?s'). x \<in> set (priv_timers s) \<or>
                (next_ref s \<le> x \<and> x < next_ref ?s')"
      unfolding alloc_safe_def by blast+
    from fixed have e: "events ?s' = events s"
      unfolding events_fixed_def by blast
    from p l have "t \<notin> set (priv_timers ?s')" unfolding P_def by auto
    with p n e show "P ?s'" unfolding P_def by simp
  qed
  have rm: "\<And>s k. P s \<Longrightarrow> P (s\<lparr>priv_timers := splice (priv_timers s) k\<rparr>)"
    using set_splice unfolding P_def by fastforce
  have init: "P (fst w)" using a b c by (simp add: P_def)
  have "\<exists>w' new. run api xs w = Some (Inr w') \<and> P (fst w') \<and> snd w' = snd w @ new \<and>
          (\<forall>u b. CallUpdate u b \<in> set new \<longrightarrow> u \<noteq> t)"
    by (rule run_inv[where P = P and R = "\<lambda>u. u \<noteq> t", OF safe cb _ _ rm _ _ _ init])
      (auto simp add: P_def)
  then show ?thesis by blast
qed

text \<open>No operation calls \<open>start()\<close>, whatever the callbacks do.\<close>

lemma step_no_start:
  assumes "step api x w = Some (Inr w')"
  shows "\<exists>new. snd w' = snd w @ new \<and> (\<forall>t. CallStart t \<notin> set new)"
proof (cases x)
  case (OpCreate a)
  with assms show ?thesis by (auto simp add: create_eq)
next
  case OpRemoveAll
  with assms show ?thesis by (auto simp add: removeAll_eq)
next
  case (OpUpdate e)
  show ?thesis
  proof (cases "paused (fst w)")
    case True
    with assms OpUpdate show ?thesis by (simp add: update_def)
  next
    case False
    let ?c = "CallUpdate (events (fst w))
         (fst (t_update api (events (fst w))
            ((fst w)\<lparr>now := now (fst w) + e * timeScale (fst w)\<rparr>)))"
    from assms OpUpdate False
    have "scan api (scan_start api e (fst w), snd w @ [?c]) = Some (Inr w')"
      by (simp add: update_unpaused)
    from scan_log[OF this] obtain tr where "snd w' = (snd w @ [?c]) @ upd_calls tr"
      by auto
    then have "snd w' = snd w @ (?c # upd_calls tr) \<and> (\<forall>t. CallStart t \<notin> set (?c # upd_calls tr))"
      by auto
    then show ?thesis by blast
  qed
next
  case (OpElapsedSince since)
  with assms show ?thesis by (auto simp add: elapsedSince_def)
next
  case OpReset
  with assms show ?thesis by (auto simp add: reset_def removeAll_eq)
next
  case (OpSetPaused b)
  with assms show ?thesis by auto
next
  case (OpSetTimeScale b)
  with assms show ?thesis by auto
qed

lemma run_no_start:
  "run api xs w = Some (Inr w') \<Longrightarrow>
   \<exists>new. snd w' = snd w @ new \<and> (\<forall>t. CallStart t \<notin> set new)"
proof (induction xs arbitrary: w)
  case Nil
  then show ?case by simp
next
  case (Cons x xs)
  from Cons.prems obtain w1 where s: "step api x w = Some (Inr w1)"
    and r: "run api xs w1 = Some (Inr w')"
    by (auto split: option.splits sum.splits)
  from step_no_start[OF s] obtain n1 where a: "snd w1 = snd w @ n1" "\<forall>t. CallStart t \<notin> set n1"
    by blast
  from Cons.IH[OF r] obtain n2 where b: "snd w' = snd w1 @ n2" "\<forall>t. CallStart t \<notin> set n2"
    by blast
  from a b have "snd w' = snd w @ (n1 @ n2) \<and> (\<forall>t. CallStart t \<notin> set (n1 @ n2))" by simp
  then show ?case by blast
qed

subsection \<open>The claims about single operations\<close>

text \<open>
  C3. While the Clock is paused, \<open>update(elapsed)\<close> returns without any effect, for every
  state and every elapsed value: \<open>now\<close>, \<open>timeScale\<close>, \<open>paused\<close>, \<open>events\<close> and the
  managed timers are as before, and the log of calls on timers is as before, so neither
  a managed timer's \<open>update\<close> nor that of the events timer was invoked.
\<close>

theorem update_paused:
  "paused (fst w) \<Longrightarrow> update api elapsed w = Some (Inr w)"
  by (simp add: update_def)

theorem update_paused_witness:
  "paused (fst ((fst two_timers)\<lparr>paused := True\<rparr>, snd two_timers)) \<and>
   update tick_api 16 ((fst two_timers)\<lparr>paused := True\<rparr>, snd two_timers) =
     Some (Inr ((fst two_timers)\<lparr>paused := True\<rparr>, snd two_timers))"
  using update_paused [of "((fst two_timers)\<lparr>paused := True\<rparr>, snd two_timers)" tick_api 16]
  by simp


text \<open>
  C10. \<open>create(autoDestroy)\<close> allocates one new timer, built with the given flag (true when
  the argument is omitted), appends it to the managed timers and returns it. The only call
  it makes on a timer is the constructor: the new timer is not started, whereas the
  constructor of the Clock starts the events timer; and no sequence of operations on the
  Clock calls \<open>start()\<close> on any timer. \<open>now\<close>, \<open>timeScale\<close>, \<open>paused\<close> and \<open>events\<close>
  are unchanged, and \<open>create\<close> does the same whether the Clock is paused or not.
\<close>

theorem create_frame:
  "create api autoDestroy w =
     (next_ref (fst w),
      (fst w)\<lparr>priv_timers := priv_timers (fst w) @ [next_ref (fst w)],
              next_ref := Suc (next_ref (fst w)),
              env := t_init api (next_ref (fst w)) (game (fst w))
                       (case autoDestroy of None \<Rightarrow> True | Some b \<Rightarrow> b) (env (fst w))\<rparr>,
      snd w @ [CallNew (next_ref (fst w)) (case autoDestroy of None \<Rightarrow> True | Some b \<Rightarrow> b)]) \<and>
   now (fst (snd (create api autoDestroy w))) = now (fst w) \<and>
   timeScale (fst (snd (create api autoDestroy w))) = timeScale (fst w) \<and>
   paused (fst (snd (create api autoDestroy w))) = paused (fst w) \<and>
   events (fst (snd (create api autoDestroy w))) = events (fst w) \<and>
   create api autoDestroy ((fst w)\<lparr>paused := p\<rparr>, snd w) =
     (fst (create api autoDestroy w),
      (fst (snd (create api autoDestroy w)))\<lparr>paused := p\<rparr>,
      snd (snd (create api autoDestroy w))) \<and>
   snd (construct api g e0) = [CallNew 0 False, CallStart 0] \<and>
   events (fst (construct api g e0)) = 0 \<and>
   env (fst (construct api g e0)) = t_start api 0 (t_init api 0 g False e0) \<and>
   (run api xs w1 = Some (Inr w2) \<longrightarrow>
      (\<exists>new. snd w2 = snd w1 @ new \<and> (\<forall>t. CallStart t \<notin> set new)))"
proof -
  have r: "run api xs w1 = Some (Inr w2) \<longrightarrow>
      (\<exists>new. snd w2 = snd w1 @ new \<and> (\<forall>t. CallStart t \<notin> set new))"
    using run_no_start[of api xs w1 w2] by blast
  show ?thesis
    by (intro conjI r) (simp_all add: create_def construct_def new_timer_def Let_def)
qed

theorem create_frame_witness:
  "run dead_api [OpCreate None, OpUpdate 16, OpCreate (Some False), OpRemoveAll]
     (construct dead_api () ()) =
   Some (Inr (\<lparr>game = (), now = 16, timeScale = 1, paused = False, events = 0,
               priv_timers = [], priv_i = 0, priv_len = 0, next_ref = 3, env = ()\<rparr>,
              [CallNew 0 False, CallStart 0, CallNew 1 True, CallUpdate 0 False,
               CallUpdate 1 False, CallNew 2 False, CallDestroy 2, CallRemoveAll 0])) \<and>
   (\<exists>new. [CallNew 0 False, CallStart 0, CallNew 1 True, CallUpdate 0 False,
           CallUpdate 1 False, CallNew 2 False, CallDestroy 2, CallRemoveAll 0] =
          [CallNew 0 False, CallStart 0] @ new \<and>
        (\<forall>t. CallStart t \<notin> set new))"
proof -
  let ?W = "(\<lparr>game = (), now = 16, timeScale = 1, paused = False, events = 0,
               priv_timers = [], priv_i = 0, priv_len = 0, next_ref = 3, env = ()\<rparr>,
              [CallNew 0 False, CallStart 0, CallNew 1 True, CallUpdate 0 False,
               CallUpdate 1 False, CallNew 2 False, CallDestroy 2, CallRemoveAll 0])"
  have "run dead_api [OpCreate None, OpUpdate 16, OpCreate (Some False), OpRemoveAll]
          (construct dead_api () ()) = Some (Inr ?W) \<longrightarrow>
        (\<exists>new. snd ?W = snd (construct dead_api () ()) @ new \<and> (\<forall>t. CallStart t \<notin> set new))"
    using create_frame [of dead_api None "construct dead_api () ()" False "()" "()"
      "[OpCreate None, OpUpdate 16, OpCreate (Some False), OpRemoveAll]"
      "construct dead_api () ()" ?W]
    by (elim conjE)
  with dead_run have "\<exists>new. snd ?W = snd (construct dead_api () ()) @ new \<and>
      (\<forall>t. CallStart t \<notin> set new)"
    by blast
  then have "\<exists>new. [CallNew 0 False, CallStart 0, CallNew 1 True, CallUpdate 0 False,
           CallUpdate 1 False, CallNew 2 False, CallDestroy 2, CallRemoveAll 0] =
          [CallNew 0 False, CallStart 0] @ new \<and>
        (\<forall>t. CallStart t \<notin> set new)"
    by (simp add: construct_dead)
  with dead_run show ?thesis by blast
qed

text \<open>
  C5. \<open>reset()\<close> sets \<open>now\<close> to 0 and then does what \<open>removeAll()\<close> does: every managed
  timer is destroyed, the array is emptied and the events timer is asked to remove all
  its entries. Apart from \<open>now\<close> the result is that of \<open>removeAll()\<close>; \<open>timeScale\<close>
  and \<open>paused\<close> keep their values.
\<close>

theorem reset_effect:
  "reset api w = removeAll api ((fst w)\<lparr>now := 0\<rparr>, snd w) \<and>
   reset api w = ((fst (removeAll api w))\<lparr>now := 0\<rparr>, snd (removeAll api w)) \<and>
   now (fst (reset api w)) = 0 \<and>
   timeScale (fst (reset api w)) = timeScale (fst w) \<and>
   paused (fst (reset api w)) = paused (fst w) \<and>
   events (fst (reset api w)) = events (fst w) \<and>
   priv_timers (fst (reset api w)) = [] \<and>
   env (fst (reset api w)) =
     t_removeAll api (events (fst w))
       (foldl (\<lambda>e t. t_destroy api t e) (env (fst w)) (priv_timers (fst w))) \<and>
   snd (reset api w) =
     snd w @ map CallDestroy (priv_timers (fst w)) @ [CallRemoveAll (events (fst w))]"
  by (simp add: reset_def removeAll_eq)

subsection \<open>The claims about the time\<close>






subsection \<open>The claims about the pass over the managed timers\<close>

text \<open>
  C2. With callbacks that respect the cursor and at most append to the array, an unpaused
  \<open>update\<close> returns; after the events timer it invokes \<open>update()\<close> on the managed
  timers from left to right, once for each entry the array holds when the pass starts, the
  entries that follow a removed one included. The entries whose \<open>update()\<close> returned
  false are gone from the array and the others stay in their order, followed by what the
  callbacks appended; with callbacks that leave the array alone, the pass is over the
  array as \<open>update\<close> found it and the survivors are all that is left.
\<close>

theorem pass_over_timers:
  assumes "scan_safe api" and "\<not> paused (fst w)"
  shows "\<exists>s' r tr ext.
           update api elapsed w =
             Some (Inr (s', snd w @ CallUpdate (events (fst w)) r # upd_calls tr)) \<and>
           map fst tr = priv_timers (scan_start api elapsed (fst w)) \<and>
           priv_timers s' = map fst (filter snd tr) @ ext \<and>
           (list_kept api \<longrightarrow>
              ext = [] \<and> priv_timers (scan_start api elapsed (fst w)) = priv_timers (fst w))"
proof -
  have k: "list_kept api \<longrightarrow> priv_timers (scan_start api elapsed (fst w)) = priv_timers (fst w)"
    by (simp add: list_kept_def scan_start_def Let_def)
  from update_run[where P = "\<lambda>s. True", OF assms(1) _ _ _ assms(2), of elapsed]
  obtain s' r tr ext where
    "update api elapsed w =
       Some (Inr (s', snd w @ CallUpdate (events (fst w)) r # upd_calls tr))"
    "map fst tr = priv_timers (scan_start api elapsed (fst w))"
    "priv_timers s' = map fst (filter snd tr) @ ext"
    "list_kept api \<longrightarrow> ext = []"
    by blast
  with k show ?thesis by blast
qed

theorem pass_over_timers_witness:
  "scan_safe tick_api \<and> \<not> paused (fst expiring) \<and>
   (\<exists>s' r tr ext.
      update tick_api 16 expiring =
        Some (Inr (s', snd expiring @ CallUpdate (events (fst expiring)) r # upd_calls tr)) \<and>
      map fst tr = priv_timers (scan_start tick_api 16 (fst expiring)) \<and>
      priv_timers s' = map fst (filter snd tr) @ ext \<and>
      (list_kept tick_api \<longrightarrow>
         ext = [] \<and> priv_timers (scan_start tick_api 16 (fst expiring)) = priv_timers (fst expiring))) \<and>
   map_option (map_sum id (\<lambda>w. (priv_timers (fst w), snd w))) (update tick_api 16 expiring) =
     Some (Inr ([2],
       [CallNew 0 False, CallStart 0, CallNew 1 True, CallNew 2 False,
        CallUpdate 0 True, CallUpdate 1 False, CallUpdate 2 True]))"
proof -
  have p: "\<not> paused (fst expiring)" by (simp add: expiring_eq)
  from pass_over_timers [OF tick_scan_safe p, of 16] tick_scan_safe p expiring_tick
  show ?thesis by blast
qed



subsection \<open>The claims about sequences of operations\<close>

text \<open>
  C6. With callbacks that respect the cursor, at most append to the array and do not
  write \<open>events\<close>: every sequence of \<open>create\<close>, \<open>removeAll\<close>, \<open>update\<close>,
  \<open>elapsedSince\<close>, \<open>reset\<close> and writes of \<open>paused\<close> and \<open>timeScale\<close> on a new Clock
  ends in a state whose \<open>events\<close> is the timer made by the constructor; and an unpaused
  \<open>update\<close> first invokes \<open>events.update()\<close> and, whatever that returns, goes on and
  leaves \<open>events\<close> in place.
\<close>

theorem events_kept:
  assumes "scan_safe api" and "events_fixed api"
  shows "(\<exists>w. run api xs (construct api g e0) = Some (Inr w) \<and>
              events (fst w) = events (fst (construct api g e0))) \<and>
         (\<not> paused (fst w0) \<longrightarrow>
            (\<exists>w' rest.
               update api elapsed w0 = Some (Inr w') \<and>
               snd w' = snd w0 @
                 CallUpdate (events (fst w0))
                   (fst (t_update api (events (fst w0))
                      ((fst w0)\<lparr>now := now (fst w0) + elapsed * timeScale (fst w0)\<rparr>))) # rest \<and>
               events (fst w') = events (fst w0)))"
proof
  define P :: "('a, 'b) state \<Rightarrow> bool" where
    "P = (\<lambda>s. events s = events (fst (construct api g e0)))"
  have cb: "\<And>t s. P s \<Longrightarrow> P (snd (t_update api t s))"
    using assms(2) unfolding P_def events_fixed_def by simp
  have "\<exists>w new. run api xs (construct api g e0) = Some (Inr w) \<and> P (fst w) \<and>
          snd w = snd (construct api g e0) @ new \<and>
          (\<forall>t b. CallUpdate t b \<in> set new \<longrightarrow> True)"
    by (rule run_inv[where P = P and R = "\<lambda>t. True", OF assms(1) cb])
      (simp_all add: P_def)
  then show "\<exists>w. run api xs (construct api g e0) = Some (Inr w) \<and>
              events (fst w) = events (fst (construct api g e0))"
    unfolding P_def by blast
next
  show "\<not> paused (fst w0) \<longrightarrow>
            (\<exists>w' rest.
               update api elapsed w0 = Some (Inr w') \<and>
               snd w' = snd w0 @
                 CallUpdate (events (fst w0))
                   (fst (t_update api (events (fst w0))
                      ((fst w0)\<lparr>now := now (fst w0) + elapsed * timeScale (fst w0)\<rparr>))) # rest \<and>
               events (fst w') = events (fst w0))"
  proof
    assume np: "\<not> paused (fst w0)"
    define Q :: "('a, 'b) state \<Rightarrow> bool" where "Q = (\<lambda>s. events s = events (fst w0))"
    have cb: "\<And>t s. Q s \<Longrightarrow> Q (snd (t_update api t s))"
      using assms(2) unfolding Q_def events_fixed_def by simp
    have st: "Q (scan_start api elapsed (fst w0))"
      using assms(2) unfolding Q_def events_fixed_def scan_start_def by (simp add: Let_def)
    from update_run[where P = Q, OF assms(1) cb _ _ np st]
    obtain s' r tr where
      "update api elapsed w0 = Some (Inr (s', snd w0 @ CallUpdate (events (fst w0)) r # upd_calls tr))"
      "r = fst (t_update api (events (fst w0))
                 ((fst w0)\<lparr>now := now (fst w0) + elapsed * timeScale (fst w0)\<rparr>))"
      "Q s'"
      unfolding Q_def by auto
    then show "\<exists>w' rest.
               update api elapsed w0 = Some (Inr w') \<and>
               snd w' = snd w0 @
                 CallUpdate (events (fst w0))
                   (fst (t_update api (events (fst w0))
                      ((fst w0)\<lparr>now := now (fst w0) + elapsed * timeScale (fst w0)\<rparr>))) # rest \<and>
               events (fst w') = events (fst w0)"
      unfolding Q_def by simp
  qed
qed

theorem events_kept_witness:
  "scan_safe dead_api \<and> events_fixed dead_api \<and>
   (\<exists>w. run dead_api [OpCreate None, OpUpdate 16, OpRemoveAll, OpUpdate 16, OpReset]
           (construct dead_api () ()) = Some (Inr w) \<and>
        events (fst w) = events (fst (construct dead_api () ()))) \<and>
   \<not> paused (fst (construct dead_api () ())) \<and>
   (\<exists>w' rest.
      update dead_api 16 (construct dead_api () ()) = Some (Inr w') \<and>
      snd w' = snd (construct dead_api () ()) @ CallUpdate 0 False # rest \<and>
      events (fst w') = events (fst (construct dead_api () ()))) \<and>
   map_option (map_sum id (\<lambda>w. (events (fst w), priv_timers (fst w), snd w)))
     (run dead_api [OpCreate None, OpUpdate 16, OpUpdate 16] (construct dead_api () ())) =
     Some (Inr (0, [],
       [CallNew 0 False, CallStart 0, CallNew 1 True,
        CallUpdate 0 False, CallUpdate 1 False, CallUpdate 0 False]))"
  using events_kept [OF dead_scan_safe dead_events_fixed,
      of "[OpCreate None, OpUpdate 16, OpRemoveAll, OpUpdate 16, OpReset]" "()" "()"
         "construct dead_api () ()" 16] dead_two_ticks
  by (simp add: dead_scan_safe dead_events_fixed construct_dead dead_update)

text \<open>
  C4. \<open>removeAll()\<close> invokes \<open>destroy()\<close> on each managed timer, in order, empties the
  array and then invokes \<open>removeAll()\<close> on the events timer, which is not replaced. In
  a state that the operations reach from a new Clock, the events timer is not among the
  timers destroyed; there \<open>create()\<close> followed by \<open>removeAll()\<close> leaves an array of
  length 0 and has destroyed the new timer, and no later sequence of operations invokes
  \<open>update()\<close> on that timer. The callbacks are taken to respect the cursor, to append
  only timers made after the call started and to leave \<open>events\<close> alone.
\<close>

theorem removeAll_effect:
  assumes "scan_safe api" and "events_fixed api" and "alloc_safe api"
    and "run api xs0 (construct api g e0) = Some (Inr w)"
  shows "removeAll api w0 =
           ((fst w0)\<lparr>priv_timers := [],
                     env := t_removeAll api (events (fst w0))
                              (foldl (\<lambda>e t. t_destroy api t e) (env (fst w0))
                                 (priv_timers (fst w0)))\<rparr>,
            snd w0 @ map CallDestroy (priv_timers (fst w0)) @
              [CallRemoveAll (events (fst w0))]) \<and>
         events (fst (removeAll api w0)) = events (fst w0) \<and>
         CallDestroy (events (fst w)) \<notin> set (map CallDestroy (priv_timers (fst w))) \<and>
         length (priv_timers (fst (removeAll api (snd (create api autoDestroy w))))) = 0 \<and>
         CallDestroy (fst (create api autoDestroy w)) \<in>
           set (snd (removeAll api (snd (create api autoDestroy w)))) \<and>
         (\<exists>w' new.
            run api xs (removeAll api (snd (create api autoDestroy w))) = Some (Inr w') \<and>
            snd w' = snd (removeAll api (snd (create api autoDestroy w))) @ new \<and>
            (\<forall>b. CallUpdate (fst (create api autoDestroy w)) b \<notin> set new))"
proof -
  let ?t = "fst (create api autoDestroy w)"
  let ?w2 = "removeAll api (snd (create api autoDestroy w))"
  have ev: "events (fst w) < next_ref (fst w)"
    and nd: "events (fst w) \<notin> set (priv_timers (fst w))"
    using events_allocated[OF assms] by simp_all
  have a: "?t < next_ref (fst ?w2)" by (simp add: removeAll_eq create_eq)
  have b: "?t \<noteq> events (fst ?w2)" using ev by (simp add: removeAll_eq create_eq)
  have c: "?t \<notin> set (priv_timers (fst ?w2))" by (simp add: removeAll_eq)
  from gone_for_good[OF assms(1,2,3) a b c, of xs]
  have "\<exists>w' new. run api xs ?w2 = Some (Inr w') \<and> snd w' = snd ?w2 @ new \<and>
           (\<forall>b. CallUpdate ?t b \<notin> set new)" .
  moreover have "length (priv_timers (fst ?w2)) = 0" by (simp add: removeAll_eq)
  moreover have "CallDestroy ?t \<in> set (snd ?w2)" by (simp add: removeAll_eq create_eq)
  moreover have "events (fst (removeAll api w0)) = events (fst w0)" by (simp add: removeAll_eq)
  moreover have "CallDestroy (events (fst w)) \<notin> set (map CallDestroy (priv_timers (fst w)))"
    using nd by auto
  ultimately show ?thesis using removeAll_eq[of api w0] by simp
qed

theorem removeAll_effect_witness:
  "scan_safe tick_api \<and> events_fixed tick_api \<and> alloc_safe tick_api \<and>
   run tick_api [OpCreate None, OpCreate (Some False)] (construct tick_api () idle) =
     Some (Inr two_timers) \<and>
   removeAll tick_api two_timers =
     ((fst two_timers)\<lparr>priv_timers := [],
        env := t_removeAll tick_api (events (fst two_timers))
                 (foldl (\<lambda>e t. t_destroy tick_api t e) (env (fst two_timers))
                    (priv_timers (fst two_timers)))\<rparr>,
      snd two_timers @ map CallDestroy (priv_timers (fst two_timers)) @
        [CallRemoveAll (events (fst two_timers))]) \<and>
   events (fst (removeAll tick_api two_timers)) = events (fst two_timers) \<and>
   CallDestroy (events (fst two_timers)) \<notin>
     set (map CallDestroy (priv_timers (fst two_timers))) \<and>
   length (priv_timers (fst (removeAll tick_api (snd (create tick_api None two_timers))))) = 0 \<and>
   CallDestroy (fst (create tick_api None two_timers)) \<in>
     set (snd (removeAll tick_api (snd (create tick_api None two_timers)))) \<and>
   (\<exists>w' new.
      run tick_api [OpCreate None, OpUpdate 16, OpUpdate 16]
        (removeAll tick_api (snd (create tick_api None two_timers))) = Some (Inr w') \<and>
      snd w' = snd (removeAll tick_api (snd (create tick_api None two_timers))) @ new \<and>
      (\<forall>b. CallUpdate (fst (create tick_api None two_timers)) b \<notin> set new)) \<and>
   map_option (map_sum id (\<lambda>w. (priv_timers (fst w), snd w)))
     (run tick_api [OpCreate None, OpUpdate 16, OpUpdate 16]
        (removeAll tick_api (snd (create tick_api None two_timers)))) =
     Some (Inr ([],
       [CallNew 0 False, CallStart 0, CallNew 1 True, CallNew 2 False, CallNew 3 True,
        CallDestroy 1, CallDestroy 2, CallDestroy 3, CallRemoveAll 0, CallNew 4 True,
        CallUpdate 0 True, CallUpdate 4 True, CallUpdate 0 True, CallUpdate 4 False]))"
  using removeAll_effect [OF tick_scan_safe tick_events_fixed tick_alloc_safe two_timers_reached,
      of two_timers None "[OpCreate None, OpUpdate 16, OpUpdate 16]"]
    tick_scan_safe tick_events_fixed tick_alloc_safe two_timers_reached cleared_then_used
  by blast

end
